theory Spec2Isabelle
  imports Main
begin

section \<open>JavaScript strings\<close>

text \<open>
  A JavaScript string is modelled as a \<open>string\<close> (a list of characters). The
  functions below are the built-in string operations that
  \<^verbatim>\<open>src/lib/cmds/initialize.ts\<close> calls: \<^verbatim>\<open>split\<close> and \<^verbatim>\<open>join\<close> with a one-character
  separator, \<^verbatim>\<open>slice\<close>, \<^verbatim>\<open>toUpperCase\<close> and \<^verbatim>\<open>RegExp.test\<close> for the one
  regular expression of the file.
\<close>

text \<open>\<^verbatim>\<open>s.split(c)\<close>: the tokens between the occurrences of \<open>c\<close>. The result is
  never empty (\<^verbatim>\<open>''.split('-')\<close> is \<^verbatim>\<open>['']\<close>), so the first branch of the
  \<open>case\<close> below is never taken.\<close>

fun split :: "string \<Rightarrow> char \<Rightarrow> string list" where
  "split [] c = [[]]"
| "split (x # xs) c =
     (if x = c then [] # split xs c
      else (case split xs c of [] \<Rightarrow> [[x]] | t # ts \<Rightarrow> (x # t) # ts))"

text \<open>\<^verbatim>\<open>parts.join(sep)\<close>.\<close>

fun join :: "string list \<Rightarrow> string \<Rightarrow> string" where
  "join [] sep = []"
| "join [p] sep = p"
| "join (p # q # ps) sep = p @ sep @ join (q # ps) sep"

text \<open>\<^verbatim>\<open>s.slice(start, end)\<close>: a negative index counts from the end of the string, both
  indices are clamped to the string, and the result is empty when the clamped start is
  not before the clamped end.\<close>

definition clamp_index :: "string \<Rightarrow> int \<Rightarrow> int" where
  "clamp_index s i =
     (if i < 0 then max (int (length s) + i) 0 else min i (int (length s)))"

definition slice :: "string \<Rightarrow> int \<Rightarrow> int \<Rightarrow> string" where
  "slice s start end =
     take (nat (clamp_index s end - clamp_index s start)) (drop (nat (clamp_index s start)) s)"

text \<open>\<^verbatim>\<open>s.slice(start)\<close>: up to the end of the string.\<close>

definition slice_from :: "string \<Rightarrow> int \<Rightarrow> string" where
  "slice_from s start = slice s start (int (length s))"

text \<open>\<^verbatim>\<open>s.toUpperCase()\<close> on the letters \<open>a\<close> to \<open>z\<close>; every other character of the
  model is left as it is.\<close>

definition toUpperCase_char :: "char \<Rightarrow> char" where
  "toUpperCase_char c =
     (case map_of (zip ''abcdefghijklmnopqrstuvwxyz'' ''ABCDEFGHIJKLMNOPQRSTUVWXYZ'') c of
        Some u \<Rightarrow> u
      | None \<Rightarrow> c)"

definition toUpperCase :: "string \<Rightarrow> string" where
  "toUpperCase s = map toUpperCase_char s"

text \<open>The regular expression \<^verbatim>\<open>/v[0-9]+[a-z]+/\<close>. \<^verbatim>\<open>test\<close> searches the whole string for
  a match, the expression is not anchored: a \<open>v\<close>, at least one digit, then a lower-case
  letter, anywhere in the string.\<close>

definition is_digit :: "char \<Rightarrow> bool" where
  "is_digit c = (c \<in> set ''0123456789'')"

definition is_lower :: "char \<Rightarrow> bool" where
  "is_lower c = (c \<in> set ''abcdefghijklmnopqrstuvwxyz'')"

definition variant_at :: "string \<Rightarrow> bool" where
  "variant_at s =
     (case s of
        [] \<Rightarrow> False
      | c # rest \<Rightarrow>
          c = CHR ''v'' \<and> takeWhile is_digit rest \<noteq> [] \<and>
          (case dropWhile is_digit rest of [] \<Rightarrow> False | l # _ \<Rightarrow> is_lower l))"

fun variant_test :: "string \<Rightarrow> bool" where
  "variant_test [] = False"
| "variant_test (c # rest) = (variant_at (c # rest) \<or> variant_test rest)"


section \<open>AVDDescriptor\<close>

text \<open>The class \<^verbatim>\<open>AVDDescriptor\<close>: all the information about an android virtual device.\<close>

record AVDDescriptor =
  api :: string
  platform :: string
  architecture :: string
  abi :: string
  name :: string

datatype js_error = TypeError

text \<open>The last statement of the constructor, shared by both branches:
  \<^verbatim>\<open>this.abi = (this.platform.toUpperCase() == 'DEFAULT' ? '' : this.platform + '/') + this.architecture\<close>.\<close>

definition abi_of :: "string \<Rightarrow> string \<Rightarrow> string" where
  "abi_of platform' architecture' =
     (if toUpperCase platform' = ''DEFAULT'' then [] else platform' @ ''/'') @ architecture'"

text \<open>The constructor called with all three components (the branch
  \<^verbatim>\<open>platform != undefined\<close>), as \<^verbatim>\<open>getAVDDescriptors\<close> calls it.\<close>

definition AVDDescriptor_components :: "string \<Rightarrow> string \<Rightarrow> string \<Rightarrow> AVDDescriptor" where
  "AVDDescriptor_components api' platform' architecture' =
     \<lparr> api = api', platform = platform', architecture = architecture',
       abi = abi_of platform' architecture',
       name = join [api', platform', architecture'] ''-'' \<rparr>"

text \<open>The constructor called with a name alone (the branch where \<^verbatim>\<open>platform\<close> is
  undefined), as \<^verbatim>\<open>getAndroidSDKTargets\<close> calls it. \<^verbatim>\<open>nameParts[1]\<close> is \<^verbatim>\<open>undefined\<close>
  when the name has no hyphen, and concatenates as the text \<open>undefined\<close>. The regular
  expression is tested first; when it matches and the name has a single token,
  \<^verbatim>\<open>nameParts[nameParts.length - 2]\<close> is \<^verbatim>\<open>undefined\<close> and calling \<^verbatim>\<open>slice\<close> on it
  throws a TypeError.\<close>

definition AVDDescriptor_name :: "string \<Rightarrow> js_error + AVDDescriptor" where
  "AVDDescriptor_name nm =
     (let nameParts = split nm CHR ''-'';
          n = length nameParts;
          api' = nameParts ! 0 @ ''-'' @ (if 1 < n then nameParts ! 1 else ''undefined'');
          lastPart = nameParts ! (n - 1)
      in if variant_test lastPart \<and> n < 2 then Inl TypeError
         else
           let architecture' =
                 (if variant_test lastPart \<and> slice (nameParts ! (n - 2)) 0 3 = ''arm''
                  then nameParts ! (n - 2) @ ''-'' @ lastPart
                  else lastPart);
               platform' = slice nm (int (length api') + 1) (- int (length architecture') - 1)
           in Inr \<lparr> api = api', platform = platform', architecture = architecture',
                    abi = abi_of platform' architecture', name = nm \<rparr>)"

text \<open>\<^verbatim>\<open>avdName(version)\<close>.\<close>

definition avdName :: "AVDDescriptor \<Rightarrow> string \<Rightarrow> string" where
  "avdName d version = name d @ ''-v'' @ version @ ''-wd-manager''"


section \<open>The list of SDK download targets\<close>

text \<open>The inner function \<^verbatim>\<open>getSysImgTarget\<close> of \<^verbatim>\<open>getAndroidSDKTargets\<close>.\<close>

definition getSysImgTarget :: "string \<Rightarrow> string \<Rightarrow> string \<Rightarrow> string" where
  "getSysImgTarget architecture' platform' level =
     ''sys-img-'' @ architecture' @ ''-'' @
     (if toUpperCase platform' = ''DEFAULT'' then ''android'' else platform') @ ''-'' @ level"

text \<open>The initial value of \<^verbatim>\<open>targets\<close>: one \<^verbatim>\<open>android-\<close> target for each API level,
  followed by the result of the \<^verbatim>\<open>reduce\<close> over the architectures, which appends, for
  each architecture, the system image targets of every platform and every API level.\<close>

definition requested_targets :: "string list \<Rightarrow> string list \<Rightarrow> string list \<Rightarrow> string list" where
  "requested_targets apiLevels architectures platforms =
     map (\<lambda>level. ''android-'' @ level) apiLevels @
     foldl (\<lambda>targets architecture'.
              targets @ concat (map (\<lambda>platform'. map (getSysImgTarget architecture' platform') apiLevels)
                                    platforms))
           [] architectures"

text \<open>\<^verbatim>\<open>if (targets.indexOf(x) == -1) { targets.push(x); }\<close>\<close>

definition push_if_absent :: "string list \<Rightarrow> string \<Rightarrow> string list" where
  "push_if_absent targets x = (if x \<in> set targets then targets else targets @ [x])"

text \<open>The body of the \<^verbatim>\<open>oldAVDs.forEach\<close> callback, once the descriptor is decoded;
  \<^verbatim>\<open>'android-'.length\<close> is 8.\<close>

definition add_avd_targets :: "string list \<Rightarrow> AVDDescriptor \<Rightarrow> string list" where
  "add_avd_targets targets avd =
     (let targets1 = push_if_absent targets (api avd);
          sysImgTarget = getSysImgTarget (architecture avd) (platform avd) (slice_from (api avd) 8)
      in push_if_absent targets1 sysImgTarget)"

text \<open>The loop over \<^verbatim>\<open>oldAVDs\<close>; an exception of the constructor leaves the loop and
  the function.\<close>

fun forEach_oldAVD :: "string list \<Rightarrow> string list \<Rightarrow> js_error + string list" where
  "forEach_oldAVD targets [] = Inr targets"
| "forEach_oldAVD targets (nm # rest) =
     (case AVDDescriptor_name nm of
        Inl e \<Rightarrow> Inl e
      | Inr avd \<Rightarrow> forEach_oldAVD (add_avd_targets targets avd) rest)"

definition getAndroidSDKTargets ::
  "string list \<Rightarrow> string list \<Rightarrow> string list \<Rightarrow> string list \<Rightarrow> js_error + string list" where
  "getAndroidSDKTargets apiLevels architectures platforms oldAVDs =
     forEach_oldAVD (requested_targets apiLevels architectures platforms) oldAVDs"


section \<open>Promises\<close>

text \<open>
  The values that the promises of this file are resolved or rejected with, and the three
  states of a promise. The program is single-threaded and every asynchronous step is
  chained on the one before, so a promise-returning operation is modelled as a function
  from the state of the world at the moment the operation starts to the way its promise
  settles (or \<open>Pending\<close>, when it never does) and the state of the world then.
\<close>

datatype js_value = JUndefined | JNull | JNumber int | JString string | JError string

datatype outcome = Fulfilled js_value | Rejected js_value | Pending

type_synonym 'w promise = "'w \<Rightarrow> outcome \<times> 'w"

text \<open>\<^verbatim>\<open>q(value)\<close>: a promise fulfilled with the value.\<close>

definition q :: "js_value \<Rightarrow> 'w promise" where
  "q v = (\<lambda>w. (Fulfilled v, w))"

text \<open>\<^verbatim>\<open>promise.then(onFulfilled)\<close>: a rejection passes through, and the callback is not
  called; nothing is called while the promise is pending.\<close>

definition then1 :: "'w promise \<Rightarrow> (js_value \<Rightarrow> 'w promise) \<Rightarrow> 'w promise" where
  "then1 p onFulfilled =
     (\<lambda>w. case p w of
             (Fulfilled v, w') \<Rightarrow> onFulfilled v w'
           | (Rejected e, w') \<Rightarrow> (Rejected e, w')
           | (Pending, w') \<Rightarrow> (Pending, w'))"

text \<open>\<^verbatim>\<open>promise.then(onFulfilled, onRejected)\<close>.\<close>

definition then2 ::
  "'w promise \<Rightarrow> (js_value \<Rightarrow> 'w promise) \<Rightarrow> (js_value \<Rightarrow> 'w promise) \<Rightarrow> 'w promise" where
  "then2 p onFulfilled onRejected =
     (\<lambda>w. case p w of
             (Fulfilled v, w') \<Rightarrow> onFulfilled v w'
           | (Rejected e, w') \<Rightarrow> onRejected e w'
           | (Pending, w') \<Rightarrow> (Pending, w'))"

text \<open>\<^verbatim>\<open>const noop = () => {}\<close>, as a callback of \<^verbatim>\<open>then\<close>: it returns \<^verbatim>\<open>undefined\<close>.\<close>

definition noop :: "js_value \<Rightarrow> 'w promise" where
  "noop v = q JUndefined"


section \<open>Running a command of the android SDK\<close>

text \<open>
  What the listeners of a child process see: chunks of its standard output, its \<^verbatim>\<open>exit\<close>
  event with the exit code (\<^verbatim>\<open>null\<close>, here \<open>None\<close>, when the process was ended by a
  signal) and its \<^verbatim>\<open>error\<close> event.
\<close>

datatype child_event = Data string | Exit "int option" | Error js_value

text \<open>The events that have a listener which settles the promise: \<^verbatim>\<open>exit\<close> and
  \<^verbatim>\<open>error\<close>.\<close>

fun settles :: "child_event \<Rightarrow> bool" where
  "settles (Data data) = False"
| "settles (Exit code) = True"
| "settles (Error err) = True"

text \<open>\<^verbatim>\<open>data.indexOf(question)\<close>: the index of the first occurrence, or \<open>-1\<close>.\<close>

fun indexOf_from :: "string \<Rightarrow> string \<Rightarrow> int \<Rightarrow> int" where
  "indexOf_from [] question i = (if question = [] then i else - 1)"
| "indexOf_from (c # cs) question i =
     (if take (length question) (c # cs) = question then i
      else indexOf_from cs question (i + 1))"

definition indexOf :: "string \<Rightarrow> string \<Rightarrow> int" where
  "indexOf data question = indexOf_from data question 0"

text \<open>The state of one call of \<^verbatim>\<open>runAndroidSDKCommand\<close>: whether the variable
  \<^verbatim>\<open>deferred\<close> still holds the deferred object (it is set to \<^verbatim>\<open>null\<close> at the first
  settlement), the state of \<^verbatim>\<open>deferred.promise\<close>, and what was written to the standard
  input of the child.\<close>

record driver =
  deferred :: bool
  promise :: outcome
  stdin :: "string list"

text \<open>The listener installed by \<^verbatim>\<open>respondFactory(question, answer)\<close>.\<close>

definition respond :: "string \<Rightarrow> string \<Rightarrow> string \<Rightarrow> driver \<Rightarrow> driver" where
  "respond question answer data d =
     (if indexOf data question \<noteq> - 1 then d\<lparr>stdin := stdin d @ [answer @ [CHR 0x0A]]\<rparr> else d)"

text \<open>The listener of \<^verbatim>\<open>exit\<close>; \<^verbatim>\<open>if (code)\<close> is the truth value of the code: \<^verbatim>\<open>null\<close> and
  \<open>0\<close> are false.\<close>

definition on_exit :: "int option \<Rightarrow> driver \<Rightarrow> driver" where
  "on_exit code d =
     (if deferred d then
        (case code of
           None \<Rightarrow> d\<lparr>promise := Fulfilled JUndefined, deferred := False\<rparr>
         | Some c \<Rightarrow>
             if c \<noteq> 0 then d\<lparr>promise := Rejected (JNumber c), deferred := False\<rparr>
             else d\<lparr>promise := Fulfilled JUndefined, deferred := False\<rparr>)
      else d)"

text \<open>The listener of \<^verbatim>\<open>error\<close>.\<close>

definition on_error :: "js_value \<Rightarrow> driver \<Rightarrow> driver" where
  "on_error err d =
     (if deferred d then d\<lparr>promise := Rejected err, deferred := False\<rparr> else d)"

text \<open>One event of the child; \<open>config_fun\<close> is \<open>Some (question, answer)\<close> for
  \<^verbatim>\<open>respondFactory(question, answer)\<close> and \<open>None\<close> for \<^verbatim>\<open>noop\<close> or no argument.\<close>

fun dispatch :: "(string \<times> string) option \<Rightarrow> driver \<Rightarrow> child_event \<Rightarrow> driver" where
  "dispatch config_fun d (Data data) =
     (case config_fun of None \<Rightarrow> d | Some (question, answer) \<Rightarrow> respond question answer data d)"
| "dispatch config_fun d (Exit code) = on_exit code d"
| "dispatch config_fun d (Error err) = on_error err d"

definition run_child :: "(string \<times> string) option \<Rightarrow> child_event list \<Rightarrow> driver" where
  "run_child config_fun events =
     foldl (dispatch config_fun) \<lparr>deferred = True, promise = Pending, stdin = []\<rparr> events"

text \<open>
  \<^verbatim>\<open>path.join\<close> of Node.js, in its POSIX form: the non-empty arguments are joined with
  a slash and the result is normalised. The normalisation drops empty segments and
  \<open>.\<close> segments; a \<open>..\<close> segment removes the segment before it, unless there is none or
  it is \<open>..\<close> itself: then \<open>..\<close> is kept in a relative path and dropped in an absolute
  one. A leading and a trailing slash are kept, and the empty path is \<open>.\<close>.
\<close>

definition normalize_step :: "bool \<Rightarrow> string list \<Rightarrow> string \<Rightarrow> string list" where
  "normalize_step allowAboveRoot res segment =
     (if segment = [] \<or> segment = ''.'' then res
      else if segment = ''..'' then
        (if res \<noteq> [] \<and> last res \<noteq> ''..'' then butlast res
         else if allowAboveRoot then res @ [''..'']
         else res)
      else res @ [segment])"

definition path_normalize :: "string \<Rightarrow> string" where
  "path_normalize path =
     (if path = [] then ''.''
      else
        let isAbsolute = (hd path = CHR ''/'');
            trailingSeparator = (last path = CHR ''/'');
            normalized =
              join (foldl (normalize_step (\<not> isAbsolute)) [] (split path CHR ''/'')) ''/''
        in if normalized = [] then
             (if isAbsolute then ''/'' else if trailingSeparator then ''./'' else ''.'')
           else (if isAbsolute then ''/'' else []) @ normalized @
                (if trailingSeparator then ''/'' else []))"

definition path_join :: "string list \<Rightarrow> string" where
  "path_join segments =
     (let joined = join (filter (\<lambda>segment. segment \<noteq> []) segments) ''/''
      in if joined = [] then ''.'' else path_normalize joined)"

text \<open>
  \<^verbatim>\<open>runAndroidSDKCommand\<close>. The function \<^verbatim>\<open>spawn\<close> is imported from \<^verbatim>\<open>../utils\<close> and is a
  parameter here: given the executable, its arguments and the \<^verbatim>\<open>stdio\<close> mode, it changes
  the world and yields the events of the child. The returned promise is
  \<^verbatim>\<open>deferred.promise\<close> after these events. A responder is given only together with
  the \<^verbatim>\<open>stdio\<close> mode \<^verbatim>\<open>pipe\<close>, as in every call of the file, so the streams of the
  child that the responder uses exist.
\<close>

definition runAndroidSDKCommand ::
  "(string \<Rightarrow> string list \<Rightarrow> string option \<Rightarrow> 'w \<Rightarrow> child_event list \<times> 'w) \<Rightarrow>
   string \<Rightarrow> string \<Rightarrow> string list \<Rightarrow> string option \<Rightarrow> (string \<times> string) option \<Rightarrow> 'w promise" where
  "runAndroidSDKCommand spawn sdkPath cmd args stdio config_fun =
     (\<lambda>w. case spawn (path_join [sdkPath, ''tools'', ''android'']) ([cmd] @ args) stdio w of
             (events, w') \<Rightarrow> (promise (run_child config_fun events), w'))"

text \<open>\<^verbatim>\<open>makeAVD\<close>: make an android virtual device.\<close>

definition makeAVD ::
  "(string \<Rightarrow> string list \<Rightarrow> string option \<Rightarrow> 'w \<Rightarrow> child_event list \<times> 'w) \<Rightarrow>
   string \<Rightarrow> AVDDescriptor \<Rightarrow> string \<Rightarrow> 'w promise" where
  "makeAVD spawn sdkPath desc version =
     then1
       (then2
          (runAndroidSDKCommand spawn sdkPath ''delete''
             [''avd'', ''--name'', avdName desc version] None None)
          noop noop)
       (\<lambda>_. runAndroidSDKCommand spawn sdkPath ''create''
               [''avd'', ''--name'', avdName desc version, ''--target'', api desc,
                ''--abi'', abi desc]
               (Some ''pipe'')
               (Some (''Do you wish to create a custom hardware profile'', ''no'')))"

text \<open>A \<^verbatim>\<open>spawn\<close> that also records, in order, the argument list of every process it
  starts.\<close>

definition recording_spawn ::
  "(string \<Rightarrow> string list \<Rightarrow> string option \<Rightarrow> 'w \<Rightarrow> child_event list \<times> 'w) \<Rightarrow>
   string \<Rightarrow> string list \<Rightarrow> string option \<Rightarrow> 'w \<times> string list list \<Rightarrow>
   child_event list \<times> 'w \<times> string list list" where
  "recording_spawn spawn exe args stdio =
     (\<lambda>(w, started). case spawn exe args stdio w of
                        (events, w') \<Rightarrow> (events, (w', started @ [args])))"


section \<open>sequentialForEach\<close>

text \<open>\<^verbatim>\<open>sequentialForEach\<close>: \<^verbatim>\<open>ret\<close> starts as \<^verbatim>\<open>q(null)\<close> and each element of the array
  chains one \<^verbatim>\<open>then\<close> on it.\<close>

definition sequentialForEach :: "'a list \<Rightarrow> ('a \<Rightarrow> 'w promise) \<Rightarrow> 'w promise" where
  "sequentialForEach array func =
     foldl (\<lambda>ret x. then1 ret (\<lambda>_. func x)) (q JNull) array"

text \<open>An operation that also records, in order, the items it is invoked for.\<close>

definition recording :: "('a \<Rightarrow> 'w promise) \<Rightarrow> 'a \<Rightarrow> ('w \<times> 'a list) promise" where
  "recording func x =
     (\<lambda>(w, invoked). case func x w of (r, w') \<Rightarrow> (r, (w', invoked @ [x])))"

text \<open>The world after the operation has been invoked for each item of the list in order
  and every one of these invocations was fulfilled; \<open>None\<close> when one of them was not.\<close>

fun all_fulfilled :: "('a \<Rightarrow> 'w promise) \<Rightarrow> 'a list \<Rightarrow> 'w \<Rightarrow> 'w option" where
  "all_fulfilled func [] w = Some w"
| "all_fulfilled func (x # xs) w =
     (case func x w of
        (Fulfilled v, w') \<Rightarrow> all_fulfilled func xs w'
      | (Rejected e, w') \<Rightarrow> None
      | (Pending, w') \<Rightarrow> None)"


section \<open>The hardware configuration of a system image\<close>














section \<open>The key/value content of a configuration file\<close>













section \<open>The targets of the old devices\<close>

text \<open>The two targets that the loop over \<^verbatim>\<open>oldAVDs\<close> ensures for a descriptor, in the
  order in which it handles them: \<^verbatim>\<open>avd.api\<close>, then the system image target.\<close>

definition own_targets :: "AVDDescriptor \<Rightarrow> string list" where
  "own_targets avd =
     [api avd, getSysImgTarget (architecture avd) (platform avd) (slice_from (api avd) 8)]"

text \<open>A list without its repeated entries, each entry kept at the place where it is
  first seen.\<close>

definition first_occurrences :: "'a list \<Rightarrow> 'a list" where
  "first_occurrences xs = rev (remdups (rev xs))"


section \<open>Case-insensitive comparison\<close>

text \<open>What the specification calls equality under case-insensitive comparison: the two
  strings are equal once the letters \<open>A\<close> to \<open>Z\<close> are replaced by \<open>a\<close> to \<open>z\<close>.\<close>

definition toLowerCase_char :: "char \<Rightarrow> char" where
  "toLowerCase_char c =
     (case map_of (zip ''ABCDEFGHIJKLMNOPQRSTUVWXYZ'' ''abcdefghijklmnopqrstuvwxyz'') c of
        Some l \<Rightarrow> l
      | None \<Rightarrow> c)"

definition equals_ignoring_case :: "string \<Rightarrow> string \<Rightarrow> bool" where
  "equals_ignoring_case a b = (map toLowerCase_char a = map toLowerCase_char b)"


section \<open>Names that decode to their components\<close>

text \<open>The components whose canonical name is decoded back to them: the API has exactly
  two tokens, and the architecture is one token that the variant rule does not extend to
  the left, or two tokens that the variant rule joins.\<close>

definition round_trips :: "string \<Rightarrow> string \<Rightarrow> string \<Rightarrow> bool" where
  "round_trips api' platform' architecture' =
     (length (split api' CHR ''-'') = 2 \<and>
      (case split architecture' CHR ''-'' of
         [t] \<Rightarrow> \<not> (variant_test t \<and> take 3 (last (split platform' CHR ''-'')) = ''arm'')
       | [t, v] \<Rightarrow> variant_test v \<and> take 3 t = ''arm''
       | _ \<Rightarrow> False))"


section \<open>Properties of the string operations\<close>

subsection \<open>The regular expression\<close>

text \<open>\<^const>\<open>variant_test\<close> holds exactly of the strings that contain a \<open>v\<close>, then one
  or more digits, then a lower-case letter: the strings in which \<^verbatim>\<open>/v[0-9]+[a-z]+/\<close>
  finds a match.\<close>

lemma lower_not_digit: "is_lower c \<Longrightarrow> \<not> is_digit c"
  by (auto simp: is_lower_def is_digit_def)

lemma variant_at_Cons:
  "variant_at (c # rest) =
     (c = CHR ''v'' \<and> takeWhile is_digit rest \<noteq> [] \<and>
      (case dropWhile is_digit rest of [] \<Rightarrow> False | l # _ \<Rightarrow> is_lower l))"
  by (simp add: variant_at_def)

lemma variant_at_Nil: "\<not> variant_at []"
  by (simp add: variant_at_def)

lemma variant_at_iff:
  "variant_at s \<longleftrightarrow>
     (\<exists>ds l post. s = CHR ''v'' # ds @ l # post \<and> ds \<noteq> [] \<and>
        (\<forall>d \<in> set ds. is_digit d) \<and> is_lower l)"
proof
  assume v: "variant_at s"
  show "\<exists>ds l post. s = CHR ''v'' # ds @ l # post \<and> ds \<noteq> [] \<and>
        (\<forall>d \<in> set ds. is_digit d) \<and> is_lower l"
  proof (cases s)
    case Nil
    with v variant_at_Nil show ?thesis by simp
  next
    case (Cons c rest)
    with v have c: "c = CHR ''v''" and ds: "takeWhile is_digit rest \<noteq> []"
      and dr: "case dropWhile is_digit rest of [] \<Rightarrow> False | l # _ \<Rightarrow> is_lower l"
      by (simp_all add: variant_at_Cons)
    from dr obtain l post where d: "dropWhile is_digit rest = l # post" and l: "is_lower l"
      by (cases "dropWhile is_digit rest") simp_all
    from takeWhile_dropWhile_id [of is_digit rest]
    have r: "takeWhile is_digit rest @ l # post = rest" unfolding d .
    have a: "\<forall>d \<in> set (takeWhile is_digit rest). is_digit d"
      by (auto dest: set_takeWhileD)
    have "s = CHR ''v'' # takeWhile is_digit rest @ l # post"
      by (simp only: Cons c r)
    with ds a l show ?thesis by (intro exI conjI)
  qed
next
  assume "\<exists>ds l post. s = CHR ''v'' # ds @ l # post \<and> ds \<noteq> [] \<and>
        (\<forall>d \<in> set ds. is_digit d) \<and> is_lower l"
  then obtain ds l post where s: "s = CHR ''v'' # ds @ l # post" and ne: "ds \<noteq> []"
    and dg: "\<forall>d \<in> set ds. is_digit d" and l: "is_lower l"
    by (elim exE conjE)
  from l have nd: "\<not> is_digit l" by (rule lower_not_digit)
  from dg nd have t: "takeWhile is_digit (ds @ l # post) = ds"
    by simp
  from dg nd have d: "dropWhile is_digit (ds @ l # post) = l # post"
    by simp
  show "variant_at s"
    unfolding s variant_at_Cons t d using ne l by simp
qed

lemma variant_test_iff_suffix:
  "variant_test s \<longleftrightarrow> (\<exists>pre suf. s = pre @ suf \<and> variant_at suf)"
proof (induction s)
  case Nil
  then show ?case by (simp add: variant_at_def)
next
  case (Cons c s)
  show ?case
  proof
    assume "variant_test (c # s)"
    then consider "variant_at (c # s)" | "variant_test s" by auto
    then show "\<exists>pre suf. c # s = pre @ suf \<and> variant_at suf"
    proof cases
      case 1
      then have "c # s = [] @ (c # s) \<and> variant_at (c # s)" by simp
      then show ?thesis by blast
    next
      case 2
      with Cons obtain pre suf where "s = pre @ suf" "variant_at suf" by blast
      then have "c # s = (c # pre) @ suf \<and> variant_at suf" by simp
      then show ?thesis by blast
    qed
  next
    assume "\<exists>pre suf. c # s = pre @ suf \<and> variant_at suf"
    then obtain pre suf where ps: "c # s = pre @ suf" and v: "variant_at suf" by blast
    show "variant_test (c # s)"
    proof (cases pre)
      assume "pre = []"
      with ps have "suf = c # s" by simp
      with v have "variant_at (c # s)" by simp
      then show ?thesis by simp
    next
      fix p pre'
      assume "pre = p # pre'"
      with ps have "s = pre' @ suf" by simp
      with v have "\<exists>pre suf. s = pre @ suf \<and> variant_at suf" by blast
      with Cons.IH have "variant_test s" by simp
      then show ?thesis by simp
    qed
  qed
qed

lemma variant_test_iff:
  "variant_test s \<longleftrightarrow>
     (\<exists>pre ds l post. s = pre @ CHR ''v'' # ds @ l # post \<and> ds \<noteq> [] \<and>
        (\<forall>d \<in> set ds. is_digit d) \<and> is_lower l)"
proof
  assume "variant_test s"
  then obtain pre suf where "s = pre @ suf" "variant_at suf"
    unfolding variant_test_iff_suffix by blast
  moreover from this(2) obtain ds l post where "suf = CHR ''v'' # ds @ l # post" "ds \<noteq> []"
    "\<forall>d \<in> set ds. is_digit d" "is_lower l"
    unfolding variant_at_iff by blast
  ultimately show "\<exists>pre ds l post. s = pre @ CHR ''v'' # ds @ l # post \<and> ds \<noteq> [] \<and>
        (\<forall>d \<in> set ds. is_digit d) \<and> is_lower l"
    by blast
next
  assume "\<exists>pre ds l post. s = pre @ CHR ''v'' # ds @ l # post \<and> ds \<noteq> [] \<and>
        (\<forall>d \<in> set ds. is_digit d) \<and> is_lower l"
  then obtain pre ds l post where s: "s = pre @ CHR ''v'' # ds @ l # post" and "ds \<noteq> []"
    "\<forall>d \<in> set ds. is_digit d" "is_lower l"
    by blast
  then have "variant_at (CHR ''v'' # ds @ l # post)"
    unfolding variant_at_iff by blast
  with s show "variant_test s"
    unfolding variant_test_iff_suffix by blast
qed

subsection \<open>Splitting and joining\<close>

lemma split_not_Nil [simp]: "split s c \<noteq> []"
  by (induction s) (auto split: list.splits)

lemma split_append_sep: "split (a @ c # b) c = split a c @ split b c"
  by (induction a) (auto split: list.splits)

lemma split_no_sep: "c \<notin> set s \<Longrightarrow> split s c = [s]"
  by (induction s) auto

lemma length_split: "length (split s c) = Suc (count_list s c)"
  by (induction s) (auto split: list.splits)

lemma split_tokens: "t \<in> set (split s c) \<Longrightarrow> c \<notin> set t"
  by (induction s arbitrary: t) (auto split: list.splits if_splits)

lemma join_split: "join (split s c) [c] = s"
proof (induction s)
  case Nil
  then show ?case by simp
next
  case (Cons x s)
  obtain t ts where ts: "split s c = t # ts" by (cases "split s c") auto
  show ?case
  proof (cases "x = c")
    case True
    with Cons ts show ?thesis by simp
  next
    case False
    with Cons ts show ?thesis by (cases ts) auto
  qed
qed

lemma upper_lower_DEFAULT:
  "toUpperCase_char c = CHR ''D'' \<longleftrightarrow> toLowerCase_char c = CHR ''d''"
  "toUpperCase_char c = CHR ''E'' \<longleftrightarrow> toLowerCase_char c = CHR ''e''"
  "toUpperCase_char c = CHR ''F'' \<longleftrightarrow> toLowerCase_char c = CHR ''f''"
  "toUpperCase_char c = CHR ''A'' \<longleftrightarrow> toLowerCase_char c = CHR ''a''"
  "toUpperCase_char c = CHR ''U'' \<longleftrightarrow> toLowerCase_char c = CHR ''u''"
  "toUpperCase_char c = CHR ''L'' \<longleftrightarrow> toLowerCase_char c = CHR ''l''"
  "toUpperCase_char c = CHR ''T'' \<longleftrightarrow> toLowerCase_char c = CHR ''t''"
  by (auto simp: toUpperCase_char_def toLowerCase_char_def split: if_splits)

lemma toUpperCase_DEFAULT:
  "toUpperCase p = ''DEFAULT'' \<longleftrightarrow> equals_ignoring_case p ''default''"
proof -
  have low: "map toLowerCase_char ''default'' = ''default''"
    by (simp add: toLowerCase_char_def)
  show ?thesis
    unfolding toUpperCase_def equals_ignoring_case_def low
    by (auto simp: map_eq_Cons_conv upper_lower_DEFAULT)
qed

lemma abi_of_eq:
  "abi_of p r = (if equals_ignoring_case p ''default'' then r else p @ ''/'' @ r)"
  by (simp add: abi_of_def toUpperCase_DEFAULT)

lemma slice_take: "slice s 0 (int k) = take k s"
  by (simp add: slice_def clamp_index_def min_def)

lemma nat_int_Suc: "nat (int n + 1) = Suc n"
  by simp

lemma slice_middle:
  "slice (u @ c # p @ d # v) (int (length u) + 1) (- int (length v) - 1) = p"
  by (simp add: slice_def clamp_index_def nat_int_Suc del: of_nat_Suc)

lemma nth_last_butlast: "2 \<le> length xs \<Longrightarrow> xs ! (length xs - 2) = last (butlast xs)"
proof (cases xs rule: rev_cases)
  case Nil
  assume "2 \<le> length xs"
  with Nil show ?thesis by simp
next
  case (snoc ys y)
  assume "2 \<le> length xs"
  with snoc show ?thesis
    by (cases ys rule: rev_cases) (simp_all add: nth_append butlast_append)
qed

lemma AVDDescriptor_name_tokens:
  assumes "2 \<le> length (split nm CHR ''-'')"
  shows "AVDDescriptor_name nm =
     (let ps = split nm CHR ''-'';
          api' = hd ps @ ''-'' @ ps ! 1;
          architecture' =
            (if variant_test (last ps) \<and> take 3 (last (butlast ps)) = ''arm''
             then last (butlast ps) @ ''-'' @ last ps else last ps);
          platform' = slice nm (int (length api') + 1) (- int (length architecture') - 1)
      in Inr \<lparr> api = api', platform = platform', architecture = architecture',
               abi = abi_of platform' architecture', name = nm \<rparr>)"
proof -
  let ?ps = "split nm CHR ''-''"
  have l: "?ps ! (length ?ps - 1) = last ?ps" by (simp add: last_conv_nth)
  have sl: "?ps ! (length ?ps - 2) = last (butlast ?ps)"
    using assms by (rule nth_last_butlast)
  have h: "?ps ! 0 = hd ?ps" by (simp add: hd_conv_nth)
  have s3: "slice s 0 3 = take 3 s" for s using slice_take [of s 3] by simp
  have n: "1 < length ?ps" "\<not> length ?ps < 2" using assms by simp_all
  show ?thesis
    by (simp only: AVDDescriptor_name_def Let_def l sl h s3 n if_True if_False simp_thms)
qed

lemma AVDDescriptor_name_single:
  assumes "length (split nm CHR ''-'') = 1"
  shows "AVDDescriptor_name nm =
     (if variant_test nm then Inl TypeError
      else Inr \<lparr> api = nm @ ''-undefined'', platform = [], architecture = nm,
                  abi = abi_of [] nm, name = nm \<rparr>)"
proof -
  from assms have "count_list nm CHR ''-'' = 0" by (simp add: length_split)
  then have "CHR ''-'' \<notin> set nm" by (simp add: count_list_0_iff)
  then have sp: "split nm CHR ''-'' = [nm]" by (rule split_no_sep)
  show ?thesis
    unfolding AVDDescriptor_name_def Let_def sp
    by (simp add: slice_def clamp_index_def)
qed

lemma AVDDescriptor_name_returns:
  assumes "2 \<le> length (split nm CHR ''-'') \<or> \<not> variant_test (last (split nm CHR ''-''))"
  shows "\<exists>d. AVDDescriptor_name nm = Inr d"
proof (cases "2 \<le> length (split nm CHR ''-'')")
  case True
  then show ?thesis by (simp add: AVDDescriptor_name_tokens Let_def)
next
  case False
  have "length (split nm CHR ''-'') \<noteq> 0" by simp
  with False have one: "length (split nm CHR ''-'') = 1" by linarith
  then have "count_list nm CHR ''-'' = 0" by (simp add: length_split)
  then have "CHR ''-'' \<notin> set nm" by (simp add: count_list_0_iff)
  then have sp: "split nm CHR ''-'' = [nm]" by (rule split_no_sep)
  with assms False have "\<not> variant_test nm" by simp
  with one show ?thesis by (simp add: AVDDescriptor_name_single)
qed

subsection \<open>The derived field abi\<close>

text \<open>
  C8. For every descriptor, built from components or decoded from a name, the field
  \<open>abi\<close> is the architecture alone when the platform equals \<open>default\<close> under
  case-insensitive comparison, and the platform, a slash and the architecture for any
  other platform.
\<close>

theorem abi_derivation:
  "abi (AVDDescriptor_components a p r) =
     (if equals_ignoring_case p ''default'' then r else p @ ''/'' @ r) \<and>
   (AVDDescriptor_name nm = Inr d \<longrightarrow>
      abi d = (if equals_ignoring_case (platform d) ''default'' then architecture d
               else platform d @ ''/'' @ architecture d))"
proof
  show "abi (AVDDescriptor_components a p r) =
     (if equals_ignoring_case p ''default'' then r else p @ ''/'' @ r)"
    by (simp add: AVDDescriptor_components_def abi_of_eq)
  show "AVDDescriptor_name nm = Inr d \<longrightarrow>
      abi d = (if equals_ignoring_case (platform d) ''default'' then architecture d
               else platform d @ ''/'' @ architecture d)"
  proof
    assume d: "AVDDescriptor_name nm = Inr d"
    then have "abi d = abi_of (platform d) (architecture d)"
      unfolding AVDDescriptor_name_def Let_def by (auto split: if_splits)
    then show "abi d = (if equals_ignoring_case (platform d) ''default'' then architecture d
               else platform d @ ''/'' @ architecture d)"
      by (simp only: abi_of_eq)
  qed
qed

theorem abi_derivation_witness:
  "AVDDescriptor_name ''android-24-Default-x86'' =
     Inr \<lparr>api = ''android-24'', platform = ''Default'', architecture = ''x86'',
          abi = ''x86'', name = ''android-24-Default-x86''\<rparr> \<and>
   equals_ignoring_case ''Default'' ''default'' \<and>
   abi (AVDDescriptor_components ''android-24'' ''google_apis'' ''x86'') = ''google_apis/x86''"
proof -
  let ?d = "\<lparr>api = ''android-24'', platform = ''Default'', architecture = ''x86'',
          abi = ''x86'', name = ''android-24-Default-x86''\<rparr>"
  have e: "AVDDescriptor_name ''android-24-Default-x86'' = Inr ?d"
    by code_simp
  have n: "\<not> equals_ignoring_case ''google_apis'' ''default''" by code_simp
  note t = abi_derivation [of "''android-24''" "''google_apis''" "''x86''"
      "''android-24-Default-x86''" ?d]
  from t e have "abi ?d = (if equals_ignoring_case (platform ?d) ''default'' then architecture ?d
               else platform ?d @ ''/'' @ architecture ?d)"
    by blast
  then have c: "equals_ignoring_case ''Default'' ''default''"
    by (simp split: if_splits)
  from t n
  have "abi (AVDDescriptor_components ''android-24'' ''google_apis'' ''x86'') = ''google_apis/x86''"
    by simp
  with e c show ?thesis by simp
qed

subsection \<open>The architecture of a decoded name\<close>

text \<open>
  C2. When a name is decoded, the last token is the architecture, unless the token before
  it starts with \<open>arm\<close> and the last token matches \<^verbatim>\<open>/v[0-9]+[a-z]+/\<close>: then the
  architecture is these two tokens joined by a hyphen. The name needs two tokens for the
  token before the last to exist; a name of one token is covered when the pattern does
  not match it. In particular a name ending in \<open>-armXYZ-v7a\<close> has the architecture
  \<open>armXYZ-v7a\<close> and a name ending in \<open>-x86\<close> has the architecture \<open>x86\<close>.
\<close>

theorem architecture_variant_detection:
  "(let ps = split nm CHR ''-'' in
      2 \<le> length ps \<or> \<not> variant_test (last ps) \<longrightarrow>
      (\<exists>d. AVDDescriptor_name nm = Inr d \<and>
           architecture d =
             (if take 3 (last (butlast ps)) = ''arm'' \<and> variant_test (last ps)
              then last (butlast ps) @ ''-'' @ last ps
              else last ps))) \<and>
   (CHR ''-'' \<notin> set xyz \<longrightarrow>
      (\<exists>d. AVDDescriptor_name (pre @ ''-arm'' @ xyz @ ''-v7a'') = Inr d \<and>
           architecture d = ''arm'' @ xyz @ ''-v7a'')) \<and>
   (\<exists>d. AVDDescriptor_name (pre @ ''-x86'') = Inr d \<and> architecture d = ''x86'')"
proof (intro conjI)
  show "let ps = split nm CHR ''-'' in
      2 \<le> length ps \<or> \<not> variant_test (last ps) \<longrightarrow>
      (\<exists>d. AVDDescriptor_name nm = Inr d \<and>
           architecture d =
             (if take 3 (last (butlast ps)) = ''arm'' \<and> variant_test (last ps)
              then last (butlast ps) @ ''-'' @ last ps
              else last ps))"
  proof (cases "2 \<le> length (split nm CHR ''-'')")
    case True
    then show ?thesis by (simp add: AVDDescriptor_name_tokens Let_def)
  next
    case False
    have "length (split nm CHR ''-'') \<noteq> 0" by simp
    with False have one: "length (split nm CHR ''-'') = 1" by linarith
    then have "count_list nm CHR ''-'' = 0" by (simp add: length_split)
    then have "CHR ''-'' \<notin> set nm" by (simp add: count_list_0_iff)
    then have sp: "split nm CHR ''-'' = [nm]" by (rule split_no_sep)
    show ?thesis
      by (simp add: Let_def sp AVDDescriptor_name_single [OF one])
  qed
next
  show "CHR ''-'' \<notin> set xyz \<longrightarrow>
      (\<exists>d. AVDDescriptor_name (pre @ ''-arm'' @ xyz @ ''-v7a'') = Inr d \<and>
           architecture d = ''arm'' @ xyz @ ''-v7a'')"
  proof
    assume x: "CHR ''-'' \<notin> set xyz"
    let ?nm = "pre @ ''-arm'' @ xyz @ ''-v7a''"
    have nm: "?nm = pre @ CHR ''-'' # (''arm'' @ xyz) @ CHR ''-'' # ''v7a''" by simp
    from x have t: "split (''arm'' @ xyz) CHR ''-'' = [''arm'' @ xyz]"
      by (intro split_no_sep) simp
    have v: "split ''v7a'' CHR ''-'' = [''v7a'']" by simp
    have ps: "split ?nm CHR ''-'' = split pre CHR ''-'' @ [''arm'' @ xyz, ''v7a'']"
      unfolding nm split_append_sep t v by simp
    have len: "2 \<le> length (split ?nm CHR ''-'')" unfolding ps by simp
    show "\<exists>d. AVDDescriptor_name ?nm = Inr d \<and> architecture d = ''arm'' @ xyz @ ''-v7a''"
      unfolding AVDDescriptor_name_tokens [OF len] Let_def ps
      by (simp add: butlast_append variant_at_def is_digit_def is_lower_def)
  qed
next
  let ?nm = "pre @ ''-x86''"
  have ps: "split ?nm CHR ''-'' = split pre CHR ''-'' @ [''x86'']"
    unfolding split_append_sep by simp
  have len: "2 \<le> length (split ?nm CHR ''-'')"
    unfolding ps using split_not_Nil [of pre "CHR ''-''"]
    by (cases "split pre CHR ''-''") simp_all
  show "\<exists>d. AVDDescriptor_name ?nm = Inr d \<and> architecture d = ''x86''"
    unfolding AVDDescriptor_name_tokens [OF len] Let_def ps
    by (simp add: variant_at_def is_digit_def)
qed

theorem architecture_variant_detection_witness:
  "2 \<le> length (split ''android-23-google_apis-armeabi-v7a'' CHR ''-'') \<and>
   CHR ''-'' \<notin> set ''eabi'' \<and>
   (\<exists>d. AVDDescriptor_name ''android-23-google_apis-armeabi-v7a'' = Inr d \<and>
        architecture d = ''armeabi-v7a'')"
proof -
  have h1: "2 \<le> length (split ''android-23-google_apis-armeabi-v7a'' CHR ''-'')"
    by code_simp
  have h2: "CHR ''-'' \<notin> set ''eabi''" by simp
  have nm: "''android-23-google_apis'' @ ''-arm'' @ ''eabi'' @ ''-v7a'' =
            ''android-23-google_apis-armeabi-v7a''" by simp
  have ar: "''arm'' @ ''eabi'' @ ''-v7a'' = ''armeabi-v7a''" by simp
  from architecture_variant_detection
    [of "''android-23-google_apis-armeabi-v7a''" "''eabi''" "''android-23-google_apis''",
     THEN conjunct2, THEN conjunct1, rule_format, OF h2]
  have "\<exists>d. AVDDescriptor_name ''android-23-google_apis-armeabi-v7a'' = Inr d \<and>
        architecture d = ''armeabi-v7a''"
    unfolding nm ar .
  with h1 h2 show ?thesis by blast
qed

subsection \<open>Decoding the name of a descriptor built from components\<close>

lemma count_hyphen_token:
  "t \<in> set (split s c) \<Longrightarrow> count_list t c = 0"
  by (simp add: split_tokens count_list_0_iff)

lemma split_two: "length (split s c) = 2 \<Longrightarrow> \<exists>t u. split s c = [t, u] \<and> s = t @ c # u"
proof -
  assume "length (split s c) = 2"
  then obtain t u where tu: "split s c = [t, u]"
    by (cases "split s c"; cases "tl (split s c)") auto
  have "join (split s c) [c] = s" by (rule join_split)
  with tu have "s = t @ c # u" by simp
  with tu show ?thesis by blast
qed

lemma split_one: "length (split s c) = 1 \<Longrightarrow> split s c = [s]"
proof -
  assume "length (split s c) = 1"
  then obtain t where t: "split s c = [t]" by (cases "split s c") auto
  have "join (split s c) [c] = s" by (rule join_split)
  with t show ?thesis by simp
qed

lemma name_components:
  "name (AVDDescriptor_components a p r) = a @ CHR ''-'' # p @ CHR ''-'' # r"
  by (simp add: AVDDescriptor_components_def)

lemma split_name_components:
  "split (a @ CHR ''-'' # p @ CHR ''-'' # r) CHR ''-'' =
     split a CHR ''-'' @ split p CHR ''-'' @ split r CHR ''-''"
  by (simp add: split_append_sep)

lemma decode_components:
  "AVDDescriptor_name (name (AVDDescriptor_components a p r)) =
     (let nm = a @ CHR ''-'' # p @ CHR ''-'' # r;
          ps = split a CHR ''-'' @ split p CHR ''-'' @ split r CHR ''-'';
          api' = hd ps @ ''-'' @ ps ! 1;
          architecture' =
            (if variant_test (last ps) \<and> take 3 (last (butlast ps)) = ''arm''
             then last (butlast ps) @ ''-'' @ last ps else last ps);
          platform' = slice nm (int (length api') + 1) (- int (length architecture') - 1)
      in Inr \<lparr> api = api', platform = platform', architecture = architecture',
               abi = abi_of platform' architecture', name = nm \<rparr>)"
proof -
  have len: "2 \<le> length (split (a @ CHR ''-'' # p @ CHR ''-'' # r) CHR ''-'')"
    unfolding split_name_components by (simp add: length_split)
  show ?thesis
    unfolding name_components AVDDescriptor_name_tokens [OF len]
    unfolding split_name_components by (simp only: Let_def)
qed

lemma round_trips_sufficient:
  assumes "round_trips a p r"
  shows "AVDDescriptor_name (name (AVDDescriptor_components a p r)) =
           Inr (AVDDescriptor_components a p r)"
proof -
  from assms have "length (split a CHR ''-'') = 2" by (simp add: round_trips_def)
  then obtain t u where a: "split a CHR ''-'' = [t, u]" "a = t @ CHR ''-'' # u"
    using split_two by blast
  obtain q qs where q: "split p CHR ''-'' = q # qs" by (cases "split p CHR ''-''") auto
  have sm: "slice (a @ CHR ''-'' # p @ CHR ''-'' # r) (int (length a) + 1) (- int (length r) - 1) = p"
    by (rule slice_middle)
  consider (one) "length (split r CHR ''-'') = 1" | (two) "length (split r CHR ''-'') = 2"
    using assms by (auto simp: round_trips_def split: list.splits)
  then show ?thesis
  proof cases
    case one
    then have r: "split r CHR ''-'' = [r]" by (rule split_one)
    with assms have nv: "\<not> (variant_test r \<and> take 3 (last (split p CHR ''-'')) = ''arm'')"
      by (simp add: round_trips_def)
    have api: "hd ([t, u] @ split p CHR ''-'' @ [r]) @ ''-'' @ ([t, u] @ split p CHR ''-'' @ [r]) ! 1 = a"
      using a by simp
    have arch: "(if variant_test (last ([t, u] @ split p CHR ''-'' @ [r])) \<and>
                   take 3 (last (butlast ([t, u] @ split p CHR ''-'' @ [r]))) = ''arm''
                then last (butlast ([t, u] @ split p CHR ''-'' @ [r])) @ ''-'' @
                     last ([t, u] @ split p CHR ''-'' @ [r])
                else last ([t, u] @ split p CHR ''-'' @ [r])) = r"
      using nv by (auto simp: butlast_append)
    show ?thesis
      unfolding decode_components Let_def a(1) r api arch
      unfolding a(2) [symmetric] sm
      by (simp add: AVDDescriptor_components_def)
  next
    case two
    then obtain x y where r: "split r CHR ''-'' = [x, y]" "r = x @ CHR ''-'' # y"
      using split_two by blast
    with assms have v: "variant_test y" "take 3 x = ''arm''"
      by (simp_all add: round_trips_def)
    have api: "hd ([t, u] @ split p CHR ''-'' @ [x, y]) @ ''-'' @ ([t, u] @ split p CHR ''-'' @ [x, y]) ! 1 = a"
      using a by simp
    have arch: "(if variant_test (last ([t, u] @ split p CHR ''-'' @ [x, y])) \<and>
                   take 3 (last (butlast ([t, u] @ split p CHR ''-'' @ [x, y]))) = ''arm''
                then last (butlast ([t, u] @ split p CHR ''-'' @ [x, y])) @ ''-'' @
                     last ([t, u] @ split p CHR ''-'' @ [x, y])
                else last ([t, u] @ split p CHR ''-'' @ [x, y])) = r"
      using v r(2) by (simp add: butlast_append)
    show ?thesis
      unfolding decode_components Let_def a(1) r(1) api arch
      unfolding a(2) [symmetric] sm
      by (simp add: AVDDescriptor_components_def)
  qed
qed

lemma round_trips_necessary:
  assumes d: "AVDDescriptor_name (name (AVDDescriptor_components a p r)) = Inr d"
    and "api d = a" and "architecture d = r"
  shows "round_trips a p r"
proof -
  let ?c = "CHR ''-''"
  let ?ps = "split a ?c @ split p ?c @ split r ?c"
  let ?cond = "variant_test (last ?ps) \<and> take 3 (last (butlast ?ps)) = ''arm''"
  have tok: "count_list t ?c = 0" if "t \<in> set ?ps" for t
    using that count_hyphen_token by auto
  have len: "3 \<le> length ?ps" by (simp add: length_split)
  have ne: "?ps \<noteq> []" by simp
  have h: "hd ?ps \<in> set ?ps" using ne by (rule hd_in_set)
  have s: "?ps ! 1 \<in> set ?ps" using len by (intro nth_mem) linarith
  have l: "last ?ps \<in> set ?ps" using ne by (rule last_in_set)
  have "butlast ?ps \<noteq> []" using len by (cases ?ps rule: rev_cases) auto
  then have "last (butlast ?ps) \<in> set (butlast ?ps)" by (rule last_in_set)
  then have b: "last (butlast ?ps) \<in> set ?ps" by (rule in_set_butlastD)
  from d assms(2) have "hd ?ps @ ''-'' @ ?ps ! 1 = a"
    unfolding decode_components Let_def by auto
  then have "count_list a ?c = count_list (hd ?ps @ ''-'' @ ?ps ! 1) ?c" by simp
  also have "\<dots> = 1" using tok [OF h] tok [OF s] by simp
  finally have a2: "length (split a ?c) = 2" by (simp add: length_split)
  from d assms(3) have ar: "(if ?cond then last (butlast ?ps) @ ''-'' @ last ?ps else last ?ps) = r"
    unfolding decode_components Let_def by auto
  show ?thesis
  proof (cases ?cond)
    case True
    with ar have "count_list r ?c = count_list (last (butlast ?ps) @ ''-'' @ last ?ps) ?c"
      by simp
    also have "\<dots> = 1" using tok [OF l] tok [OF b] by simp
    finally have "length (split r ?c) = 2" by (simp add: length_split)
    then obtain x y where r: "split r ?c = [x, y]" using split_two by blast
    with True have "variant_test y \<and> take 3 x = ''arm''" by (simp add: butlast_append)
    with a2 r show ?thesis by (simp add: round_trips_def)
  next
    case False
    with ar have "count_list r ?c = count_list (last ?ps) ?c" by auto
    also have "\<dots> = 0" using tok [OF l] .
    finally have "length (split r ?c) = 1" by (simp add: length_split)
    then have r: "split r ?c = [r]" by (rule split_one)
    with False have "\<not> (variant_test r \<and> take 3 (last (split p ?c)) = ''arm'')"
      by (simp add: butlast_append)
    with a2 r show ?thesis by (simp add: round_trips_def)
  qed
qed

text \<open>
  C1. Decoding the canonical name of a descriptor built from the components
  \<open>(api, platform, architecture)\<close> gives back these three components exactly when
  \<^const>\<open>round_trips\<close> holds of them: the API has two tokens, and the architecture is a
  single token that the variant rule leaves alone, or two tokens that it joins. For other
  components the decoded fields differ, as for the architecture \<open>x86-64\<close> below.
\<close>

theorem name_round_trip:
  "(\<exists>d. AVDDescriptor_name (name (AVDDescriptor_components a p r)) = Inr d \<and>
        api d = a \<and> platform d = p \<and> architecture d = r) =
   round_trips a p r"
proof
  assume "\<exists>d. AVDDescriptor_name (name (AVDDescriptor_components a p r)) = Inr d \<and>
        api d = a \<and> platform d = p \<and> architecture d = r"
  then show "round_trips a p r" using round_trips_necessary by blast
next
  assume "round_trips a p r"
  then have "AVDDescriptor_name (name (AVDDescriptor_components a p r)) =
           Inr (AVDDescriptor_components a p r)"
    by (rule round_trips_sufficient)
  moreover have "api (AVDDescriptor_components a p r) = a"
    "platform (AVDDescriptor_components a p r) = p"
    "architecture (AVDDescriptor_components a p r) = r"
    by (simp_all add: AVDDescriptor_components_def)
  ultimately show "\<exists>d. AVDDescriptor_name (name (AVDDescriptor_components a p r)) = Inr d \<and>
        api d = a \<and> platform d = p \<and> architecture d = r"
    by blast
qed

theorem name_round_trip_witness:
  "round_trips ''android-24'' ''google_apis'' ''armeabi-v7a'' \<and>
   (\<exists>d. AVDDescriptor_name
          (name (AVDDescriptor_components ''android-24'' ''google_apis'' ''armeabi-v7a'')) = Inr d \<and>
        api d = ''android-24'' \<and> platform d = ''google_apis'' \<and>
        architecture d = ''armeabi-v7a'')"
proof -
  have r: "round_trips ''android-24'' ''google_apis'' ''armeabi-v7a''" by code_simp
  with name_round_trip [of "''android-24''" "''google_apis''" "''armeabi-v7a''"]
  show ?thesis by simp
qed

theorem name_round_trip_counterexample:
  "AVDDescriptor_name (name (AVDDescriptor_components ''android-24'' ''default'' ''x86-64'')) =
     Inr \<lparr>api = ''android-24'', platform = ''default-x86'', architecture = ''64'',
          abi = ''default-x86/64'', name = ''android-24-default-x86-64''\<rparr>"
  by code_simp


section \<open>Properties of the list of download targets\<close>

lemma push_if_absent_append:
  "push_if_absent ts x = ts @ (if x \<in> set ts then [] else [x])"
  by (simp add: push_if_absent_def)

lemma add_avd_targets_extra:
  "\<exists>extra. add_avd_targets ts avd = ts @ extra \<and> distinct extra \<and> set extra \<inter> set ts = {} \<and>
     set ts \<union> set extra =
       set ts \<union> {api avd, getSysImgTarget (architecture avd) (platform avd) (slice_from (api avd) 8)}"
  unfolding add_avd_targets_def Let_def push_if_absent_append
  by auto

lemma forEach_oldAVD_returns:
  "\<forall>nm \<in> set olds. 2 \<le> length (split nm CHR ''-'') \<or> \<not> variant_test (last (split nm CHR ''-''))
   \<Longrightarrow> \<exists>out. forEach_oldAVD ts olds = Inr out"
proof (induction olds arbitrary: ts)
  case Nil
  then show ?case by simp
next
  case (Cons nm olds)
  then obtain avd where "AVDDescriptor_name nm = Inr avd"
    using AVDDescriptor_name_returns [of nm] by auto
  with Cons show ?case by simp
qed

lemma forEach_oldAVD_extra:
  "forEach_oldAVD ts olds = Inr out \<Longrightarrow>
   \<exists>extra. out = ts @ extra \<and> distinct extra \<and> set extra \<inter> set ts = {}"
proof (induction olds arbitrary: ts)
  case Nil
  then show ?case by simp
next
  case (Cons nm olds)
  from Cons.prems obtain avd where avd: "AVDDescriptor_name nm = Inr avd"
    and rest: "forEach_oldAVD (add_avd_targets ts avd) olds = Inr out"
    by (auto split: sum.splits)
  obtain e1 where e1: "add_avd_targets ts avd = ts @ e1" "distinct e1" "set e1 \<inter> set ts = {}"
    using add_avd_targets_extra [of ts avd] by blast
  from Cons.IH [OF rest] obtain e2 where e2: "out = add_avd_targets ts avd @ e2" "distinct e2"
    "set e2 \<inter> set (add_avd_targets ts avd) = {}"
    by blast
  have "out = ts @ (e1 @ e2)" using e1(1) e2(1) by simp
  moreover have "distinct (e1 @ e2)" using e1 e2 by auto
  moreover have "set (e1 @ e2) \<inter> set ts = {}" using e1 e2 by auto
  ultimately show ?case by blast
qed

lemma count_list_distinct: "distinct xs \<Longrightarrow> x \<in> set xs \<Longrightarrow> count_list xs x = 1"
  by (induction xs) auto

lemma count_list_append_extra:
  assumes "distinct extra" "set extra \<inter> set ts = {}" "x \<in> set (ts @ extra)"
  shows "count_list (ts @ extra) x = max 1 (count_list ts x)"
proof (cases "x \<in> set ts")
  case True
  with assms(2) have "x \<notin> set extra" by auto
  then have "count_list extra x = 0" by (simp add: count_list_0_iff)
  moreover from True have "count_list ts x \<noteq> 0" by (simp add: count_list_0_iff)
  ultimately show ?thesis by simp
next
  case False
  with assms(3) have "x \<in> set extra" by simp
  with assms(1) have "count_list extra x = 1" by (rule count_list_distinct)
  moreover from False have "count_list ts x = 0" by (simp add: count_list_0_iff)
  ultimately show ?thesis by simp
qed

text \<open>
  C3. When every name of \<open>oldAVDs\<close> can be decoded, \<^const>\<open>getAndroidSDKTargets\<close>
  returns a list, and this list has no duplicate entries exactly when the targets emitted
  for the requested API levels, architectures and platforms have none: only the entries
  added for the old devices are guarded by \<^verbatim>\<open>indexOf\<close>. A request that names an API
  level twice gives a list with duplicates.
\<close>

theorem targets_distinct:
  assumes "\<forall>nm \<in> set oldAVDs.
             2 \<le> length (split nm CHR ''-'') \<or> \<not> variant_test (last (split nm CHR ''-''))"
  shows "\<exists>out. getAndroidSDKTargets apiLevels architectures platforms oldAVDs = Inr out \<and>
           distinct out = distinct (requested_targets apiLevels architectures platforms)"
proof -
  from assms obtain out
    where out: "forEach_oldAVD (requested_targets apiLevels architectures platforms) oldAVDs = Inr out"
    using forEach_oldAVD_returns by blast
  then obtain extra where "out = requested_targets apiLevels architectures platforms @ extra"
    "distinct extra" "set extra \<inter> set (requested_targets apiLevels architectures platforms) = {}"
    using forEach_oldAVD_extra by blast
  then have "distinct out = distinct (requested_targets apiLevels architectures platforms)"
    by auto
  with out show ?thesis by (simp add: getAndroidSDKTargets_def)
qed

theorem targets_distinct_witness:
  "2 \<le> length (split ''android-23-default-x86'' CHR ''-'') \<and>
   distinct (requested_targets [''24''] [''x86''] [''default'']) \<and>
   (\<exists>out. getAndroidSDKTargets [''24''] [''x86''] [''default''] [''android-23-default-x86''] =
            Inr out \<and> distinct out)"
proof -
  have h: "\<forall>nm \<in> set [''android-23-default-x86''].
      2 \<le> length (split nm CHR ''-'') \<or> \<not> variant_test (last (split nm CHR ''-''))"
    by code_simp
  have r: "distinct (requested_targets [''24''] [''x86''] [''default''])"
    by code_simp
  have h': "2 \<le> length (split ''android-23-default-x86'' CHR ''-'')"
    by code_simp
  from targets_distinct [OF h, of "[''24'']" "[''x86'']" "[''default'']"] r h'
  show ?thesis by blast
qed

theorem targets_distinct_counterexample:
  "getAndroidSDKTargets [''24'', ''24''] [''x86''] [''default''] [] =
     Inr [''android-24'', ''android-24'', ''sys-img-x86-android-24'', ''sys-img-x86-android-24''] \<and>
   \<not> distinct
     [''android-24'', ''android-24'', ''sys-img-x86-android-24'', ''sys-img-x86-android-24'']"
  by code_simp

lemma add_avd_targets_foldl:
  "add_avd_targets ts avd = foldl push_if_absent ts (own_targets avd)"
  by (simp add: add_avd_targets_def own_targets_def Let_def)

lemma forEach_oldAVD_decoded:
  "forEach_oldAVD ts olds = Inr out \<Longrightarrow>
   \<exists>avds. map AVDDescriptor_name olds = map Inr avds \<and>
          out = foldl push_if_absent ts (concat (map own_targets avds))"
proof (induction olds arbitrary: ts)
  case Nil
  then show ?case by simp
next
  case (Cons nm olds)
  from Cons.prems obtain avd where avd: "AVDDescriptor_name nm = Inr avd"
    and rest: "forEach_oldAVD (add_avd_targets ts avd) olds = Inr out"
    by (auto split: sum.splits)
  from Cons.IH [OF rest] obtain avds where avds: "map AVDDescriptor_name olds = map Inr avds"
    "out = foldl push_if_absent (add_avd_targets ts avd) (concat (map own_targets avds))"
    by blast
  have "map AVDDescriptor_name (nm # olds) = map Inr (avd # avds)"
    using avd avds(1) by simp
  moreover have "out = foldl push_if_absent ts (concat (map own_targets (avd # avds)))"
    using avds(2) by (simp add: add_avd_targets_foldl)
  ultimately show ?case by blast
qed

lemma set_first_occurrences: "set (first_occurrences xs) = set xs"
  by (simp add: first_occurrences_def)

lemma distinct_first_occurrences: "distinct (first_occurrences xs)"
  by (simp add: first_occurrences_def)

lemma first_occurrences_snoc:
  "first_occurrences (xs @ [x]) =
     (if x \<in> set xs then first_occurrences xs else first_occurrences xs @ [x])"
  by (simp add: first_occurrences_def)

lemma foldl_push_if_absent:
  "foldl push_if_absent ts xs = ts @ first_occurrences (filter (\<lambda>x. x \<notin> set ts) xs)"
proof (induction xs rule: rev_induct)
  case Nil
  then show ?case by (simp add: first_occurrences_def)
next
  case (snoc x xs)
  show ?case
  proof (cases "x \<in> set ts")
    case True
    with snoc show ?thesis by (simp add: push_if_absent_def)
  next
    case False
    with snoc show ?thesis
      by (simp add: push_if_absent_def first_occurrences_snoc set_first_occurrences)
  qed
qed

text \<open>
  C7. When every name of \<open>oldAVDs\<close> can be decoded, the returned list is the list of the
  requested targets followed, at the end, by the own targets of the decoded descriptors
  that are not among the requested targets: for each descriptor in turn its API target
  and then its system image target, each entry kept once, at the place where it is first
  seen. So the API target and the system image target of every descriptor are in the
  list, a target is appended only when it is not already present, and each of them
  occurs as often as among the requested targets, or once when it is not among them:
  exactly once unless the request itself lists it more than once.
\<close>

theorem old_avd_targets_present:
  assumes "\<forall>nm \<in> set oldAVDs.
             2 \<le> length (split nm CHR ''-'') \<or> \<not> variant_test (last (split nm CHR ''-''))"
  shows "\<exists>avds out.
           map AVDDescriptor_name oldAVDs = map Inr avds \<and>
           getAndroidSDKTargets apiLevels architectures platforms oldAVDs = Inr out \<and>
           out = requested_targets apiLevels architectures platforms @
                 first_occurrences
                   (filter (\<lambda>t. t \<notin> set (requested_targets apiLevels architectures platforms))
                      (concat (map own_targets avds))) \<and>
           (\<forall>avd \<in> set avds. \<forall>t \<in> set (own_targets avd).
              t \<in> set out \<and>
              count_list out t =
                max 1 (count_list (requested_targets apiLevels architectures platforms) t))"
proof -
  let ?req = "requested_targets apiLevels architectures platforms"
  from assms obtain out where out: "forEach_oldAVD ?req oldAVDs = Inr out"
    using forEach_oldAVD_returns by blast
  from forEach_oldAVD_decoded [OF out] obtain avds
    where avds: "map AVDDescriptor_name oldAVDs = map Inr avds"
      and fold: "out = foldl push_if_absent ?req (concat (map own_targets avds))"
    by blast
  let ?extra = "first_occurrences (filter (\<lambda>t. t \<notin> set ?req) (concat (map own_targets avds)))"
  have eq: "out = ?req @ ?extra"
    unfolding fold by (rule foldl_push_if_absent)
  have d: "distinct ?extra" by (rule distinct_first_occurrences)
  have i: "set ?extra \<inter> set ?req = {}" by (auto simp: set_first_occurrences)
  have "t \<in> set out \<and> count_list out t = max 1 (count_list ?req t)"
    if "avd \<in> set avds" "t \<in> set (own_targets avd)" for avd t
  proof -
    from that have "t \<in> set (concat (map own_targets avds))" by auto
    then have m: "t \<in> set (?req @ ?extra)" by (auto simp: set_first_occurrences)
    from count_list_append_extra [OF d i m] m show ?thesis unfolding eq by simp
  qed
  with avds out eq show ?thesis
    unfolding getAndroidSDKTargets_def by blast
qed

theorem old_avd_targets_present_witness:
  "2 \<le> length (split ''android-23-default-x86'' CHR ''-'') \<and>
   2 \<le> length (split ''android-24-default-x86'' CHR ''-'') \<and>
   getAndroidSDKTargets [''24''] [''x86''] [''default'']
     [''android-23-default-x86'', ''android-24-default-x86''] =
     Inr [''android-24'', ''sys-img-x86-android-24'', ''android-23'', ''sys-img-x86-android-23'']"
proof -
  let ?olds = "[''android-23-default-x86'', ''android-24-default-x86'']"
  let ?d1 = "\<lparr>api = ''android-23'', platform = ''default'', architecture = ''x86'',
              abi = ''x86'', name = ''android-23-default-x86''\<rparr>"
  let ?d2 = "\<lparr>api = ''android-24'', platform = ''default'', architecture = ''x86'',
              abi = ''x86'', name = ''android-24-default-x86''\<rparr>"
  let ?req = "requested_targets [''24''] [''x86''] [''default'']"
  have h1: "2 \<le> length (split ''android-23-default-x86'' CHR ''-'')" by code_simp
  have h2: "2 \<le> length (split ''android-24-default-x86'' CHR ''-'')" by code_simp
  from h1 h2 have h: "\<forall>nm \<in> set ?olds.
      2 \<le> length (split nm CHR ''-'') \<or> \<not> variant_test (last (split nm CHR ''-''))"
    by simp
  have dec: "map AVDDescriptor_name ?olds = map Inr [?d1, ?d2]" by code_simp
  from old_avd_targets_present [OF h, of "[''24'']" "[''x86'']" "[''default'']"]
  obtain avds out where a: "map AVDDescriptor_name ?olds = map Inr avds"
    and o: "getAndroidSDKTargets [''24''] [''x86''] [''default''] ?olds = Inr out"
    and e: "out = ?req @ first_occurrences
              (filter (\<lambda>t. t \<notin> set ?req) (concat (map own_targets avds)))"
    by blast
  from a dec have "map Inr avds = (map Inr [?d1, ?d2] :: (js_error + AVDDescriptor) list)"
    by simp
  then have avds: "avds = [?d1, ?d2]"
    by (auto simp: map_eq_Cons_conv)
  have "?req @ first_occurrences
              (filter (\<lambda>t. t \<notin> set ?req) (concat (map own_targets [?d1, ?d2]))) =
        [''android-24'', ''sys-img-x86-android-24'', ''android-23'', ''sys-img-x86-android-23'']"
    by code_simp
  with e avds have "out =
        [''android-24'', ''sys-img-x86-android-24'', ''android-23'', ''sys-img-x86-android-23'']"
    by simp
  with o h1 h2 show ?thesis by simp
qed

theorem old_avd_targets_present_counterexample:
  "AVDDescriptor_name ''android-24-default-x86'' =
     Inr \<lparr>api = ''android-24'', platform = ''default'', architecture = ''x86'',
          abi = ''x86'', name = ''android-24-default-x86''\<rparr> \<and>
   getAndroidSDKTargets [''24'', ''24''] [] [] [''android-24-default-x86''] =
     Inr [''android-24'', ''android-24'', ''sys-img-x86-android-24''] \<and>
   count_list [''android-24'', ''android-24'', ''sys-img-x86-android-24''] ''android-24'' = 2"
  by code_simp


section \<open>Properties of sequentialForEach\<close>

lemma then1_Rejected: "p w = (Rejected e, w') \<Longrightarrow> then1 p f w = (Rejected e, w')"
  by (simp add: then1_def)

lemma then1_Pending: "p w = (Pending, w') \<Longrightarrow> then1 p f w = (Pending, w')"
  by (simp add: then1_def)

lemma then1_Fulfilled: "p w = (Fulfilled v, w') \<Longrightarrow> then1 p f w = f v w'"
  by (simp add: then1_def)

lemma sequentialForEach_snoc:
  "sequentialForEach (xs @ [x]) func = then1 (sequentialForEach xs func) (\<lambda>_. func x)"
  by (simp add: sequentialForEach_def)

lemma sequentialForEach_append_Rejected:
  "sequentialForEach xs func w = (Rejected e, w') \<Longrightarrow>
   sequentialForEach (xs @ ys) func w = (Rejected e, w')"
proof (induction ys rule: rev_induct)
  case Nil
  then show ?case by simp
next
  case (snoc y ys)
  then have "sequentialForEach (xs @ ys) func w = (Rejected e, w')" by simp
  then have "then1 (sequentialForEach (xs @ ys) func) (\<lambda>_. func y) w = (Rejected e, w')"
    by (rule then1_Rejected)
  then show ?case
    using sequentialForEach_snoc [of "xs @ ys" y func] by simp
qed

lemma all_fulfilled_snoc:
  "all_fulfilled func (xs @ [x]) w = Some w' \<longleftrightarrow>
   (\<exists>w1 v. all_fulfilled func xs w = Some w1 \<and> func x w1 = (Fulfilled v, w'))"
proof (induction xs arbitrary: w)
  case Nil
  show ?case by (cases "func x w"; cases "fst (func x w)") auto
next
  case (Cons y xs)
  show ?case
  proof (cases "func y w")
    case (Pair r w0)
    then show ?thesis using Cons [of w0] by (cases r) auto
  qed
qed

lemma sequentialForEach_all_fulfilled:
  "all_fulfilled func xs w = Some w' \<Longrightarrow>
   \<exists>v. sequentialForEach xs (recording func) (w, invoked) = (Fulfilled v, (w', invoked @ xs))"
proof (induction xs arbitrary: w' rule: rev_induct)
  case Nil
  then show ?case by (simp add: sequentialForEach_def q_def)
next
  case (snoc x xs)
  from snoc.prems obtain w1 v where w1: "all_fulfilled func xs w = Some w1"
    and x: "func x w1 = (Fulfilled v, w')"
    using all_fulfilled_snoc [of func xs x w w'] by blast
  from snoc.IH [OF w1] obtain v0
    where "sequentialForEach xs (recording func) (w, invoked) = (Fulfilled v0, (w1, invoked @ xs))"
    by blast
  then have "then1 (sequentialForEach xs (recording func)) (\<lambda>_. recording func x) (w, invoked) =
               recording func x (w1, invoked @ xs)"
    by (rule then1_Fulfilled)
  also have "\<dots> = (Fulfilled v, (w', invoked @ xs @ [x]))"
    using x by (simp add: recording_def)
  finally show ?case
    unfolding sequentialForEach_snoc by auto
qed

lemma sequentialForEach_first_rejection:
  assumes "all_fulfilled func pre w = Some w1" and "func x w1 = (Rejected e, w2)"
  shows "sequentialForEach (pre @ x # post) (recording func) (w, invoked) =
           (Rejected e, (w2, invoked @ pre @ [x]))"
proof -
  from sequentialForEach_all_fulfilled [OF assms(1)] obtain v
    where "sequentialForEach pre (recording func) (w, invoked) = (Fulfilled v, (w1, invoked @ pre))"
    by blast
  then have "then1 (sequentialForEach pre (recording func)) (\<lambda>_. recording func x) (w, invoked) =
               recording func x (w1, invoked @ pre)"
    by (rule then1_Fulfilled)
  also have "\<dots> = (Rejected e, (w2, invoked @ pre @ [x]))"
    using assms(2) by (simp add: recording_def)
  finally have "sequentialForEach (pre @ [x]) (recording func) (w, invoked) =
                  (Rejected e, (w2, invoked @ pre @ [x]))"
    unfolding sequentialForEach_snoc .
  then have "sequentialForEach ((pre @ [x]) @ post) (recording func) (w, invoked) =
                  (Rejected e, (w2, invoked @ pre @ [x]))"
    by (rule sequentialForEach_append_Rejected)
  then show ?thesis by simp
qed

text \<open>
  C4. \<^const>\<open>sequentialForEach\<close> invokes the operation for the items in the order of the
  array. If the invocations for the items of \<open>pre\<close> are fulfilled and the one for the next
  item \<open>x\<close> is rejected with \<open>e\<close>, the result is rejected with \<open>e\<close>, the operation
  has been invoked for the items of \<open>pre\<close> and for \<open>x\<close> in this order, and for no item
  after \<open>x\<close>. If all invocations are fulfilled, the result is fulfilled and the
  operation has been invoked for exactly the items of the array, in order.
\<close>

theorem sequentialForEach_fail_fast:
  "(all_fulfilled func pre w = Some w1 \<and> func x w1 = (Rejected e, w2) \<longrightarrow>
      sequentialForEach (pre @ x # post) (recording func) (w, []) =
        (Rejected e, (w2, pre @ [x]))) \<and>
   (all_fulfilled func array w = Some w' \<longrightarrow>
      (\<exists>v. sequentialForEach array (recording func) (w, []) = (Fulfilled v, (w', array))))"
proof (intro conjI impI)
  assume "all_fulfilled func pre w = Some w1 \<and> func x w1 = (Rejected e, w2)"
  then show "sequentialForEach (pre @ x # post) (recording func) (w, []) =
        (Rejected e, (w2, pre @ [x]))"
    using sequentialForEach_first_rejection [of func pre w w1 x e w2 post "[]"] by simp
next
  assume "all_fulfilled func array w = Some w'"
  then show "\<exists>v. sequentialForEach array (recording func) (w, []) = (Fulfilled v, (w', array))"
    using sequentialForEach_all_fulfilled [of func array w w' "[]"] by simp
qed

theorem sequentialForEach_fail_fast_witness:
  "all_fulfilled (\<lambda>x w. (if x = 2 then Rejected (JNumber 2) else Fulfilled JNull, w + x))
     [1] (0::nat) = Some 1 \<and>
   sequentialForEach [1, 2, 3::nat]
     (recording (\<lambda>x w. (if x = 2 then Rejected (JNumber 2) else Fulfilled JNull, w + x)))
     (0::nat, []) = (Rejected (JNumber 2), (3, [1, 2]))"
proof -
  let ?f = "\<lambda>(x::nat) (w::nat). (if x = 2 then Rejected (JNumber 2) else Fulfilled JNull, w + x)"
  have a: "all_fulfilled ?f [1] 0 = Some 1" by simp
  have b: "?f 2 1 = (Rejected (JNumber 2), 3)" by simp
  from sequentialForEach_fail_fast [of ?f "[1]" 0 1 2 "JNumber 2" 3 "[3]", THEN conjunct1] a b
  have "sequentialForEach ([1] @ 2 # [3]) (recording ?f) (0, []) =
          (Rejected (JNumber 2), (3, [1] @ [2]))"
    by blast
  with a show ?thesis by simp
qed


section \<open>Properties of the process driver and of makeAVD\<close>

lemma dispatch_unsettling:
  "\<not> settles ev \<Longrightarrow>
   deferred (dispatch config_fun d ev) = deferred d \<and>
   promise (dispatch config_fun d ev) = promise d"
  by (cases ev) (auto simp: respond_def split: option.splits)

lemma foldl_dispatch_unsettling:
  "\<forall>ev \<in> set pre. \<not> settles ev \<Longrightarrow>
   deferred (foldl (dispatch config_fun) d pre) = deferred d \<and>
   promise (foldl (dispatch config_fun) d pre) = promise d"
  by (induction pre arbitrary: d) (simp_all add: dispatch_unsettling)

lemma dispatch_settled:
  "\<not> deferred d \<Longrightarrow>
   \<not> deferred (dispatch config_fun d ev) \<and> promise (dispatch config_fun d ev) = promise d"
  by (cases ev) (auto simp: respond_def on_exit_def on_error_def split: option.splits)

lemma foldl_dispatch_settled:
  "\<not> deferred d \<Longrightarrow> promise (foldl (dispatch config_fun) d post) = promise d"
  by (induction post arbitrary: d) (simp_all add: dispatch_settled)

lemma run_child_unsettled:
  assumes "\<forall>ev \<in> set pre. \<not> settles ev"
  shows "promise (run_child config_fun pre) = Pending"
    and "deferred (run_child config_fun pre)"
  using foldl_dispatch_unsettling [OF assms, of config_fun
      "\<lparr>deferred = True, promise = Pending, stdin = []\<rparr>"]
  by (simp_all add: run_child_def)

lemma run_child_first_settlement:
  assumes "\<forall>ev \<in> set pre. \<not> settles ev" and "settles ev"
  shows "promise (run_child config_fun (pre @ ev # post)) =
           promise (dispatch config_fun (run_child config_fun pre) ev)"
proof -
  have "\<not> deferred (dispatch config_fun (run_child config_fun pre) ev)"
    using assms(2) run_child_unsettled(2) [OF assms(1), of config_fun]
    by (cases ev) (auto simp: on_exit_def on_error_def split: option.splits)
  then have "promise (foldl (dispatch config_fun)
               (dispatch config_fun (run_child config_fun pre) ev) post) =
             promise (dispatch config_fun (run_child config_fun pre) ev)"
    by (rule foldl_dispatch_settled)
  then show ?thesis by (simp add: run_child_def)
qed

lemma run_child_exit:
  assumes "\<forall>ev \<in> set pre. \<not> settles ev"
  shows "promise (run_child config_fun (pre @ Exit code # post)) =
           (case code of
              None \<Rightarrow> Fulfilled JUndefined
            | Some c \<Rightarrow> if c = 0 then Fulfilled JUndefined else Rejected (JNumber c))"
  using run_child_unsettled [OF assms, of config_fun]
  by (simp add: run_child_first_settlement [OF assms] on_exit_def split: option.splits)

lemma run_child_error:
  assumes "\<forall>ev \<in> set pre. \<not> settles ev"
  shows "promise (run_child config_fun (pre @ Error err # post)) = Rejected err"
  using run_child_unsettled [OF assms, of config_fun]
  by (simp add: run_child_first_settlement [OF assms] on_error_def)

text \<open>
  C6. The promise of \<^const>\<open>runAndroidSDKCommand\<close> is settled by the first \<^verbatim>\<open>exit\<close> or
  \<^verbatim>\<open>error\<close> event of the child and by no later one. It is fulfilled when this event is
  an exit whose code is \<open>0\<close> or \<^verbatim>\<open>null\<close>, rejected with the exit code when the code is
  another number, and rejected with the error when the event is \<^verbatim>\<open>error\<close>; it stays
  pending when neither event comes. So it is not only an exit with code zero that
  fulfils it: an exit with the code \<^verbatim>\<open>null\<close> does, too.
\<close>

theorem runAndroidSDKCommand_settlement:
  assumes "\<forall>ev \<in> set pre. \<not> settles ev"
  shows
    "(spawn (path_join [sdkPath, ''tools'', ''android'']) (cmd # args) stdio w =
        (pre @ Exit code # post, w') \<longrightarrow>
      runAndroidSDKCommand spawn sdkPath cmd args stdio config_fun w =
        ((case code of
            None \<Rightarrow> Fulfilled JUndefined
          | Some c \<Rightarrow> if c = 0 then Fulfilled JUndefined else Rejected (JNumber c)), w')) \<and>
     (spawn (path_join [sdkPath, ''tools'', ''android'']) (cmd # args) stdio w =
        (pre @ Error err # post, w') \<longrightarrow>
      runAndroidSDKCommand spawn sdkPath cmd args stdio config_fun w = (Rejected err, w')) \<and>
     (spawn (path_join [sdkPath, ''tools'', ''android'']) (cmd # args) stdio w = (pre, w') \<longrightarrow>
      runAndroidSDKCommand spawn sdkPath cmd args stdio config_fun w = (Pending, w'))"
  by (simp add: runAndroidSDKCommand_def run_child_exit [OF assms] run_child_error [OF assms]
      run_child_unsettled(1) [OF assms])

theorem runAndroidSDKCommand_settlement_witness:
  "\<not> settles (Data ''Installing'') \<and>
   runAndroidSDKCommand
     (\<lambda>exe args stdio w. ([Data ''Installing'', Exit (Some 3), Error (JError ''late''), Exit (Some 0)], w))
     ''sdk'' ''update'' [''sdk''] None None () = (Rejected (JNumber 3), ())"
proof -
  let ?spawn = "\<lambda>(exe::string) (args::string list) (stdio::string option) (w::unit).
                  ([Data ''Installing'', Exit (Some 3), Error (JError ''late''), Exit (Some 0)], w)"
  have h: "\<forall>ev \<in> set [Data ''Installing'']. \<not> settles ev" by simp
  from runAndroidSDKCommand_settlement [OF h, of ?spawn "''sdk''" "''update''" "[''sdk'']" None "()"
      "Some 3" "[Error (JError ''late''), Exit (Some 0)]" "()" None, THEN conjunct1]
  have "runAndroidSDKCommand ?spawn ''sdk'' ''update'' [''sdk''] None None () =
          (Rejected (JNumber 3), ())"
    by simp
  then show ?thesis by simp
qed

theorem runAndroidSDKCommand_settlement_counterexample:
  "runAndroidSDKCommand (\<lambda>exe args stdio w. ([Exit None], w))
     ''sdk'' ''update'' [''sdk''] None None () = (Fulfilled JUndefined, ())"
  by (simp add: runAndroidSDKCommand_def run_child_def on_exit_def)

text \<open>
  C10. When the first settling event of the child is \<^verbatim>\<open>exit\<close>, the promise is fulfilled
  exactly when the exit code is \<^verbatim>\<open>null\<close> or \<open>0\<close>, and it is rejected exactly when
  the code is a number other than \<open>0\<close>.
\<close>

theorem exit_falsy_code_resolves:
  assumes "\<forall>ev \<in> set pre. \<not> settles ev"
  shows "(promise (run_child config_fun (pre @ Exit code # post)) = Fulfilled JUndefined) =
           (code = None \<or> code = Some 0) \<and>
         (\<exists>reason. promise (run_child config_fun (pre @ Exit code # post)) = Rejected reason) =
           (\<exists>c. code = Some c \<and> c \<noteq> 0)"
  unfolding run_child_exit [OF assms]
  by (cases code) auto

theorem exit_falsy_code_resolves_witness:
  "\<not> settles (Data ''Killed'') \<and>
   promise (run_child None ([Data ''Killed''] @ Exit None # [])) = Fulfilled JUndefined"
proof -
  have h: "\<forall>ev \<in> set [Data ''Killed'']. \<not> settles ev" by simp
  from exit_falsy_code_resolves [OF h, of None None "[]"]
  show ?thesis by simp
qed

text \<open>
  C9. In \<^const>\<open>makeAVD\<close>, whether the \<^verbatim>\<open>delete\<close> command is fulfilled or rejected,
  the \<^verbatim>\<open>create\<close> command for the same \<^const>\<open>avdName\<close> is started next, and the
  result of \<^const>\<open>makeAVD\<close> is the result of this \<^verbatim>\<open>create\<close> command.
\<close>

theorem makeAVD_ignores_delete:
  assumes "runAndroidSDKCommand (recording_spawn spawn) sdkPath ''delete''
             [''avd'', ''--name'', avdName desc version] None None (w, started) = (r1, s1)"
    and "r1 \<noteq> Pending"
  shows "makeAVD (recording_spawn spawn) sdkPath desc version (w, started) =
           runAndroidSDKCommand (recording_spawn spawn) sdkPath ''create''
             [''avd'', ''--name'', avdName desc version, ''--target'', api desc, ''--abi'', abi desc]
             (Some ''pipe'') (Some (''Do you wish to create a custom hardware profile'', ''no''))
             s1 \<and>
         snd (snd (makeAVD (recording_spawn spawn) sdkPath desc version (w, started))) =
           started @
           [[''delete'', ''avd'', ''--name'', avdName desc version],
            [''create'', ''avd'', ''--name'', avdName desc version, ''--target'', api desc,
             ''--abi'', abi desc]]"
proof -
  let ?delete = "runAndroidSDKCommand (recording_spawn spawn) sdkPath ''delete''
             [''avd'', ''--name'', avdName desc version] None None"
  let ?create = "runAndroidSDKCommand (recording_spawn spawn) sdkPath ''create''
             [''avd'', ''--name'', avdName desc version, ''--target'', api desc, ''--abi'', abi desc]
             (Some ''pipe'') (Some (''Do you wish to create a custom hardware profile'', ''no''))"
  from assms have "then2 ?delete noop noop (w, started) = (Fulfilled JUndefined, s1)"
    by (cases r1) (simp_all add: then2_def noop_def q_def)
  then have m: "makeAVD (recording_spawn spawn) sdkPath desc version (w, started) = ?create s1"
    by (simp add: makeAVD_def then1_def)
  from assms(1) have s1: "snd s1 = started @ [[''delete'', ''avd'', ''--name'', avdName desc version]]"
    by (auto simp: runAndroidSDKCommand_def recording_spawn_def split: prod.splits)
  have "snd (snd (?create s1)) =
          snd s1 @ [[''create'', ''avd'', ''--name'', avdName desc version, ''--target'', api desc,
             ''--abi'', abi desc]]"
    by (cases s1) (auto simp: runAndroidSDKCommand_def recording_spawn_def split: prod.splits)
  with m s1 show ?thesis by simp
qed

theorem makeAVD_ignores_delete_witness:
  "fst (runAndroidSDKCommand
          (recording_spawn (\<lambda>exe args stdio w. (if hd args = ''delete'' then [Exit (Some 1)] else [Exit (Some 0)], w)))
          ''sdk'' ''delete''
          [''avd'', ''--name'', avdName (AVDDescriptor_components ''android-24'' ''default'' ''x86'') ''1'']
          None None ((), [])) = Rejected (JNumber 1) \<and>
   fst (makeAVD
          (recording_spawn (\<lambda>exe args stdio w. (if hd args = ''delete'' then [Exit (Some 1)] else [Exit (Some 0)], w)))
          ''sdk'' (AVDDescriptor_components ''android-24'' ''default'' ''x86'') ''1'' ((), [])) =
     Fulfilled JUndefined"
proof -
  let ?spawn = "\<lambda>(exe::string) (args::string list) (stdio::string option) (w::unit).
                  (if hd args = ''delete'' then [Exit (Some 1)] else [Exit (Some (0::int))], w)"
  let ?d = "AVDDescriptor_components ''android-24'' ''default'' ''x86''"
  have a: "runAndroidSDKCommand (recording_spawn ?spawn) ''sdk'' ''delete''
             [''avd'', ''--name'', avdName ?d ''1''] None None ((), []) =
           (Rejected (JNumber 1), ((), [[''delete'', ''avd'', ''--name'', avdName ?d ''1'']]))"
    by (simp add: runAndroidSDKCommand_def recording_spawn_def run_child_def on_exit_def)
  have b: "Rejected (JNumber 1) \<noteq> Pending" by simp
  have c: "fst (runAndroidSDKCommand (recording_spawn ?spawn) ''sdk'' ''create''
             [''avd'', ''--name'', avdName ?d ''1'', ''--target'', api ?d, ''--abi'', abi ?d]
             (Some ''pipe'') (Some (''Do you wish to create a custom hardware profile'', ''no''))
             ((), [[''delete'', ''avd'', ''--name'', avdName ?d ''1'']])) = Fulfilled JUndefined"
    by (simp add: runAndroidSDKCommand_def recording_spawn_def run_child_def on_exit_def)
  from makeAVD_ignores_delete [OF a b, THEN conjunct1] c
  have "fst (makeAVD (recording_spawn ?spawn) ''sdk'' ?d ''1'' ((), [])) = Fulfilled JUndefined"
    by simp
  with a show ?thesis by simp
qed


section \<open>Properties of the hardware configuration editor\<close>











subsection \<open>The line format reads back what it writes\<close>








subsection \<open>Idempotence and frame\<close>



end
